theory Spec2Isabelle
  imports Main
begin

section \<open>useThrottle\<close>

text \<open>
  The hook keeps two refs, \<open>lastExecuted\<close> (initially 0) and \<open>timeoutId\<close> (initially
  undefined), and returns a function closing over \<open>func\<close> and \<open>delay\<close>. The world
  around it is made explicit: the reading of \<open>Date.now()\<close>, the timer service's table
  of pending \<open>setTimeout\<close> callbacks (each closure captured \<open>args\<close>), and the list of
  invocations of \<open>func\<close> with the time of each.
\<close>

record 'a timeout =
  tid :: nat
  due :: int
  targs :: 'a

record 'a throttle_state =
  th_now :: int
  lastExecuted :: int
  timeoutId :: "nat option"
  th_timers :: "'a timeout list"
  th_nextId :: nat
  fn_calls :: "(int \<times> 'a) list"

text \<open>First render: both refs at their initial values, nothing scheduled. Timer handles
  are counted from 1, so every handle is truthy as in the runtime.\<close>

definition useThrottle_init :: "int \<Rightarrow> 'a throttle_state" where
  "useThrottle_init t0 =
     \<lparr>th_now = t0, lastExecuted = 0, timeoutId = None, th_timers = [],
      th_nextId = 1, fn_calls = []\<rparr>"

text \<open>\<open>clearTimeout(id)\<close>: the pending callback with that handle, if any, is dropped.\<close>

definition th_clearTimeout :: "nat \<Rightarrow> 'a throttle_state \<Rightarrow> 'a throttle_state" where
  "th_clearTimeout i s = s\<lparr>th_timers := filter (\<lambda>t. tid t \<noteq> i) (th_timers s)\<rparr>"

text \<open>The delay the timer service really arms for a requested \<open>ms\<close>: the runtime sets a
  delay that is larger than 2147483647 or less than 1 to 1 millisecond, for
  \<open>setTimeout\<close> and \<open>setInterval\<close> alike.\<close>

definition timer_delay :: "int \<Rightarrow> int" where
  "timer_delay ms = (if ms < 1 \<or> 2147483647 < ms then 1 else ms)"

text \<open>\<open>timeoutId.current = setTimeout(() => {...args...}, ms)\<close>: a fresh handle, due
  after the delay the runtime arms for \<open>ms\<close>, stored in the ref.\<close>

definition th_setTimeout :: "'a \<Rightarrow> int \<Rightarrow> 'a throttle_state \<Rightarrow> 'a throttle_state" where
  "th_setTimeout a ms s =
     s\<lparr>th_timers := th_timers s @
          [\<lparr>tid = th_nextId s, due = th_now s + timer_delay ms, targs = a\<rparr>],
       timeoutId := Some (th_nextId s),
       th_nextId := th_nextId s + 1\<rparr>"

text \<open>The function returned by the hook, called with \<open>args\<close>.\<close>

definition throttled :: "int \<Rightarrow> 'a \<Rightarrow> 'a throttle_state \<Rightarrow> 'a throttle_state" where
  "throttled delay a s =
     (let now = th_now s in
      if now - lastExecuted s \<ge> delay then
        s\<lparr>fn_calls := fn_calls s @ [(now, a)], lastExecuted := now\<rparr>
      else
        let s1 = (case timeoutId s of Some i \<Rightarrow> th_clearTimeout i s | None \<Rightarrow> s);
            remainingDelay = delay - (now - lastExecuted s)
        in th_setTimeout a remainingDelay s1)"

text \<open>The body of the scheduled closure: \<open>func(...args); lastExecuted.current = Date.now()\<close>,
  run at whatever the clock reads when the timer service calls it.\<close>

definition trailing :: "'a \<Rightarrow> 'a throttle_state \<Rightarrow> 'a throttle_state" where
  "trailing a s = s\<lparr>fn_calls := fn_calls s @ [(th_now s, a)], lastExecuted := th_now s\<rparr>"

text \<open>The timer service as the tests drive it (\<open>advanceTimersByTime\<close>): when time moves
  forward by \<open>d\<close>, every pending callback that falls due in that span runs, in order
  of its due time and with the clock reading that time; then the clock reads the new time.
  The closures of this hook schedule nothing themselves.\<close>

definition th_fire :: "'a timeout \<Rightarrow> 'a throttle_state \<Rightarrow> 'a throttle_state" where
  "th_fire t s = trailing (targs t) (s\<lparr>th_now := max (th_now s) (due t)\<rparr>)"

definition th_advance :: "nat \<Rightarrow> 'a throttle_state \<Rightarrow> 'a throttle_state" where
  "th_advance d s =
     (let t1 = th_now s + int d;
          ready = sort_key due (filter (\<lambda>t. due t \<le> t1) (th_timers s));
          s1 = s\<lparr>th_timers := filter (\<lambda>t. \<not> due t \<le> t1) (th_timers s)\<rparr>
      in (fold th_fire ready s1)\<lparr>th_now := t1\<rparr>)"

text \<open>The hook registers no effect, hence no cleanup: unmounting the consumer runs no
  code of this hook and leaves the refs and the pending timer as they are.\<close>

definition useThrottle_unmount :: "'a throttle_state \<Rightarrow> 'a throttle_state" where
  "useThrottle_unmount s = s"

text \<open>A consumer's history: calls of the throttled function, the passing of time, and
  the unmount.\<close>

datatype 'a th_event = Call 'a | Wait nat | Unmount

fun th_step :: "int \<Rightarrow> 'a th_event \<Rightarrow> 'a throttle_state \<Rightarrow> 'a throttle_state" where
  "th_step delay (Call a) s = throttled delay a s"
| "th_step delay (Wait d) s = th_advance d s"
| "th_step delay Unmount s = useThrottle_unmount s"

definition th_run :: "int \<Rightarrow> 'a th_event list \<Rightarrow> 'a throttle_state \<Rightarrow> 'a throttle_state" where
  "th_run delay evs s = fold (th_step delay) evs s"

text \<open>A burst of calls, each after some time has passed since the one before.\<close>

fun th_burst :: "int \<Rightarrow> (nat \<times> 'a) list \<Rightarrow> 'a throttle_state \<Rightarrow> 'a throttle_state" where
  "th_burst delay [] s = s"
| "th_burst delay ((g, a) # cs) s = th_burst delay cs (throttled delay a (th_advance g s))"

text \<open>The time at which the runtime will run the closure of a call deferred in state
  \<open>s\<close>: the current time plus the delay armed for
  \<open>remainingDelay = delay - (now - lastExecuted.current)\<close>.\<close>

definition trailing_due :: "int \<Rightarrow> 'a throttle_state \<Rightarrow> int" where
  "trailing_due delay s = th_now s + timer_delay (delay - (th_now s - lastExecuted s))"

text \<open>What holds of the refs and the timer table in every state a consumer can reach
  with a fixed delay: the clock is not behind the last invocation, the last entry of the
  invocation list is the one \<open>lastExecuted\<close> records, and the table holds at most one
  callback, the one \<open>timeoutId\<close> names, not yet due and due no later than the end of
  the cooldown; when the delay is within the range of the timer service it is due
  exactly when the cooldown ends.\<close>

definition throttle_inv :: "int \<Rightarrow> 'a throttle_state \<Rightarrow> bool" where
  "throttle_inv delay s \<longleftrightarrow>
     lastExecuted s \<le> th_now s \<and>
     (fn_calls s \<noteq> [] \<longrightarrow> fst (last (fn_calls s)) = lastExecuted s) \<and>
     (th_timers s = [] \<or>
      (\<exists>t. th_timers s = [t] \<and> timeoutId s = Some (tid t) \<and>
           th_now s < due t \<and> due t \<le> lastExecuted s + delay \<and>
           (delay \<le> 2147483647 \<longrightarrow> due t = lastExecuted s + delay)))"

section \<open>useInterval\<close>

text \<open>
  The hook keeps one ref, \<open>savedCallback\<close> (initially the no-op \<open>() => {}\<close>, here
  \<open>None\<close>), and two effects: one on \<open>[callback]\<close> that stores the callback in the ref,
  one on \<open>[delay]\<close> that arms \<open>setInterval\<close> unless the delay is null and returns the
  cleanup \<open>() => clearInterval(id)\<close>. The state records the dependencies of the last
  commit (\<open>None\<close> before the first), the handle the pending cleanup captured, the timer
  service's table of intervals, and the invocations of callbacks with their times.
\<close>

record interval_timer =
  it_id :: nat
  it_period :: int
  it_due :: int

record 'f interval_state =
  iv_now :: int
  savedCallback :: "'f option"
  callback_dep :: "'f option"
  delay_dep :: "int option option"
  cleanup_id :: "nat option"
  iv_timers :: "interval_timer list"
  iv_nextId :: nat
  cb_calls :: "(int \<times> 'f) list"

definition useInterval_init :: "int \<Rightarrow> 'f interval_state" where
  "useInterval_init t0 =
     \<lparr>iv_now = t0, savedCallback = None, callback_dep = None, delay_dep = None,
      cleanup_id = None, iv_timers = [], iv_nextId = 1, cb_calls = []\<rparr>"

text \<open>\<open>setInterval(cb, ms)\<close>: the interval repeats with the delay the runtime arms for
  \<open>ms\<close>.\<close>

definition iv_setInterval :: "int \<Rightarrow> 'f interval_state \<Rightarrow> 'f interval_state" where
  "iv_setInterval ms s =
     s\<lparr>iv_timers := iv_timers s @
          [\<lparr>it_id = iv_nextId s, it_period = timer_delay ms,
            it_due = iv_now s + timer_delay ms\<rparr>],
       cleanup_id := Some (iv_nextId s),
       iv_nextId := iv_nextId s + 1\<rparr>"

definition iv_clearInterval :: "nat \<Rightarrow> 'f interval_state \<Rightarrow> 'f interval_state" where
  "iv_clearInterval i s = s\<lparr>iv_timers := filter (\<lambda>t. it_id t \<noteq> i) (iv_timers s)\<rparr>"

text \<open>The cleanup of the second effect, when the effect returned one.\<close>

definition interval_cleanup :: "'f interval_state \<Rightarrow> 'f interval_state" where
  "interval_cleanup s =
     (case cleanup_id s of
        None \<Rightarrow> s
      | Some i \<Rightarrow> (iv_clearInterval i s)\<lparr>cleanup_id := None\<rparr>)"

text \<open>The body of the second effect.\<close>

definition interval_effect :: "int option \<Rightarrow> 'f interval_state \<Rightarrow> 'f interval_state" where
  "interval_effect delay s =
     (case delay of
        None \<Rightarrow> s\<lparr>cleanup_id := None\<rparr>
      | Some ms \<Rightarrow> iv_setInterval ms s)"

text \<open>One render and its commit: the cleanups of the effects whose dependencies
  changed run first, then those effects in the order of the source.\<close>

definition useInterval :: "'f \<Rightarrow> int option \<Rightarrow> 'f interval_state \<Rightarrow> 'f interval_state" where
  "useInterval callback delay s =
     (let callback_changed = (callback_dep s \<noteq> Some callback);
          delay_changed = (delay_dep s \<noteq> Some delay);
          s1 = (if delay_changed then interval_cleanup s else s);
          s2 = (if callback_changed then s1\<lparr>savedCallback := Some callback\<rparr> else s1);
          s3 = (if delay_changed then interval_effect delay s2 else s2)
      in s3\<lparr>callback_dep := Some callback, delay_dep := Some delay\<rparr>)"

definition useInterval_unmount :: "'f interval_state \<Rightarrow> 'f interval_state" where
  "useInterval_unmount s = interval_cleanup s"

text \<open>The closure given to \<open>setInterval\<close>: \<open>savedCallback.current?.()\<close>, reading the ref
  when it runs.\<close>

definition interval_fire :: "'f interval_state \<Rightarrow> 'f interval_state" where
  "interval_fire s =
     (case savedCallback s of
        None \<Rightarrow> s
      | Some cb \<Rightarrow> s\<lparr>cb_calls := cb_calls s @ [(iv_now s, cb)]\<rparr>)"

text \<open>One millisecond passes: every interval that is due runs its closure once and is
  due again one period later.\<close>

definition iv_tick :: "'f interval_state \<Rightarrow> 'f interval_state" where
  "iv_tick s =
     (let t1 = iv_now s + 1;
          ready = filter (\<lambda>t. it_due t \<le> t1) (iv_timers s);
          s1 = s\<lparr>iv_now := t1,
                 iv_timers := map (\<lambda>t. if it_due t \<le> t1
                                        then t\<lparr>it_due := it_due t + it_period t\<rparr> else t)
                                  (iv_timers s)\<rparr>
      in fold (\<lambda>t. interval_fire) ready s1)"

primrec iv_advance :: "nat \<Rightarrow> 'f interval_state \<Rightarrow> 'f interval_state" where
  "iv_advance 0 s = s"
| "iv_advance (Suc n) s = iv_advance n (iv_tick s)"

text \<open>Re-renders that change at most the callback, each after some time has passed.\<close>

fun iv_rerenders :: "int \<Rightarrow> (nat \<times> 'f) list \<Rightarrow> 'f interval_state \<Rightarrow> 'f interval_state" where
  "iv_rerenders p [] s = s"
| "iv_rerenders p ((g, cb) # rs) s = iv_rerenders p rs (useInterval cb (Some p) (iv_advance g s))"

text \<open>A mounted hook with period \<open>p\<close>, for a period the timer service arms as it is or
  raises to 1: the ref holds the callback of the last render and the table holds the one
  interval the pending cleanup names, not yet due.\<close>

definition interval_inv :: "int \<Rightarrow> 'f interval_state \<Rightarrow> bool" where
  "interval_inv p s \<longleftrightarrow>
     delay_dep s = Some (Some p) \<and> callback_dep s \<noteq> None \<and>
     savedCallback s = callback_dep s \<and>
     (\<exists>t. iv_timers s = [t] \<and> cleanup_id s = Some (it_id t) \<and>
          it_period t = max 1 p \<and> iv_now s < it_due t)"

section \<open>useDebounce\<close>

text \<open>
  Modelled from the spec: the file \<open>useDebounce.ts\<close> is not among the sources (only its
  test is), so the retained state and the three transitions follow the specification of
  the debounce policy: the value holder has the last published output and at most one
  pending timer; the first observation outputs the input at once; a later observation
  whose input differs from the previously seen one cancels the pending timer and starts a
  new one for \<open>delayMs\<close>; a timer that fires publishes the input that was current when
  it was armed; detaching cancels the pending timer.
\<close>

record 'v debounce_state =
  db_now :: int
  currentOutput :: 'v
  seenInput :: 'v
  pendingTimer :: "(int \<times> 'v) option"
  published :: "(int \<times> 'v) list"
  detached :: bool

text \<open>Modelled from the spec: \<open>useDebounce.ts\<close> is absent; the holder is created with
  \<open>currentOutput = initialInput\<close>, and on the first observation the output equals the
  input with no delay.\<close>

definition debounce_attach :: "'v \<Rightarrow> int \<Rightarrow> 'v debounce_state" where
  "debounce_attach input t0 =
     \<lparr>db_now = t0, currentOutput = input, seenInput = input, pendingTimer = None,
      published = [], detached = False\<rparr>"

text \<open>Modelled from the spec: \<open>useDebounce.ts\<close> is absent; on a later observation
  whose input differs from the previously seen input, any pending timer is cancelled and
  a new one is started for \<open>delayMs\<close>; the output stays the last published value. After
  detach nothing is mutated.\<close>

definition debounce :: "'v \<Rightarrow> int \<Rightarrow> 'v debounce_state \<Rightarrow> 'v debounce_state" where
  "debounce input delayMs s =
     (if detached s \<or> input = seenInput s then s
      else s\<lparr>seenInput := input, pendingTimer := Some (db_now s + delayMs, input)\<rparr>)"

text \<open>Modelled from the spec: \<open>useDebounce.ts\<close> is absent; \<open>delayMs\<close> defaults to 500
  when unspecified.\<close>

definition debounce_default :: "'v \<Rightarrow> 'v debounce_state \<Rightarrow> 'v debounce_state" where
  "debounce_default input s = debounce input 500 s"

text \<open>Modelled from the spec: \<open>useDebounce.ts\<close> is absent; detach cancels the pending
  timer, and no late publish occurs.\<close>

definition debounce_detach :: "'v debounce_state \<Rightarrow> 'v debounce_state" where
  "debounce_detach s = s\<lparr>pendingTimer := None, detached := True\<rparr>"

text \<open>Modelled from the spec: \<open>useDebounce.ts\<close> is absent; a timer that fires without
  having been cancelled publishes the input that was current when it was armed. Time
  moves forward by \<open>d\<close>; the one pending timer fires if it falls due in that span.\<close>

definition db_advance :: "nat \<Rightarrow> 'v debounce_state \<Rightarrow> 'v debounce_state" where
  "db_advance d s =
     (let t1 = db_now s + int d in
      case pendingTimer s of
        None \<Rightarrow> s\<lparr>db_now := t1\<rparr>
      | Some (at, v) \<Rightarrow>
          if at \<le> t1
          then s\<lparr>db_now := t1, currentOutput := v, pendingTimer := None,
                 published := published s @ [(max (db_now s) at, v)]\<rparr>
          else s\<lparr>db_now := t1\<rparr>)"

text \<open>Modelled from the spec: \<open>useDebounce.ts\<close> is absent; a burst of observations, each
  after some time has passed since the one before.\<close>

fun db_changes :: "int \<Rightarrow> (nat \<times> 'v) list \<Rightarrow> 'v debounce_state \<Rightarrow> 'v debounce_state" where
  "db_changes delayMs [] s = s"
| "db_changes delayMs ((g, v) # cs) s = db_changes delayMs cs (debounce v delayMs (db_advance g s))"

text \<open>Each input of the burst differs from the one seen before it.\<close>

fun changing :: "'v \<Rightarrow> 'v list \<Rightarrow> bool" where
  "changing v [] = True"
| "changing v (x # xs) = (x \<noteq> v \<and> changing x xs)"

section \<open>useFetch\<close>

text \<open>
  Three state cells, \<open>data\<close>, \<open>loading\<close>, \<open>error\<close>, with the initial values of the source;
  \<open>fetchData\<close> is re-created when \<open>[url, options]\<close> change, and the effect on
  \<open>[fetchData]\<close> calls it; \<open>refetch\<close> calls it too. A call of \<open>fetchData\<close> writes
  \<open>loading\<close> and \<open>error\<close>, then waits for the transport; what it does when the transport
  settles depends on the outcome alone. The calls still waiting are kept as a list of
  numbers, in the order they were started.
\<close>

datatype jserror = Error string

text \<open>What a \<open>catch\<close> can receive: an instance of \<open>Error\<close> with its message, or any
  other value.\<close>

datatype thrown = ThrownError string | ThrownOther

datatype 'd json_outcome = JsonOk "'d option" | JsonRejected thrown

text \<open>\<open>fetch\<close> rejects, or resolves with a response that has \<open>ok\<close>, \<open>status\<close> and what
  \<open>json()\<close> will settle to if it is called. A payload of \<open>None\<close> is JSON \<open>null\<close>.\<close>

datatype 'd outcome = Rejected thrown | Resolved bool nat "'d json_outcome"

record ('d, 'o) fetch_state =
  data :: "'d option"
  loading :: bool
  error :: "jserror option"
  fetch_deps :: "(string \<times> 'o option) option"
  inflight :: "nat list"
  nextOp :: nat

definition useFetch_init :: "('d, 'o) fetch_state" where
  "useFetch_init =
     \<lparr>data = None, loading = True, error = None, fetch_deps = None, inflight = [], nextOp = 0\<rparr>"

text \<open>Decimal digits of a number, as a template literal prints it.\<close>

fun string_of_nat :: "nat \<Rightarrow> string" where
  "string_of_nat n =
     (if n < 10 then [''0123456789'' ! n]
      else string_of_nat (n div 10) @ [''0123456789'' ! (n mod 10)])"

text \<open>The \<open>try\<close> block after the first \<open>await\<close>: either a value is thrown or the decoded
  payload is reached.\<close>

definition try_body :: "'d outcome \<Rightarrow> thrown + 'd option" where
  "try_body out =
     (case out of
        Rejected e \<Rightarrow> Inl e
      | Resolved ok status js \<Rightarrow>
          if \<not> ok then Inl (ThrownError (''HTTP error! status: '' @ string_of_nat status))
          else (case js of JsonOk result \<Rightarrow> Inr result | JsonRejected e \<Rightarrow> Inl e))"

text \<open>\<open>err instanceof Error ? err : new Error('An error occurred')\<close>\<close>

definition catch_error :: "thrown \<Rightarrow> jserror" where
  "catch_error e = (case e of ThrownError m \<Rightarrow> Error m | ThrownOther \<Rightarrow> Error ''An error occurred'')"

text \<open>\<open>fetchData\<close> up to its first \<open>await\<close>.\<close>

definition fetchData_start :: "('d, 'o) fetch_state \<Rightarrow> ('d, 'o) fetch_state" where
  "fetchData_start s =
     s\<lparr>loading := True, error := None,
       inflight := inflight s @ [nextOp s], nextOp := nextOp s + 1\<rparr>"

text \<open>The rest of \<open>fetchData\<close>, run when the transport of call \<open>i\<close> has settled:
  \<open>setData\<close> or the \<open>catch\<close>, then the \<open>finally\<close>. Nothing is written between the
  \<open>await\<close> of \<open>fetch\<close> and the \<open>await\<close> of \<open>json()\<close>, so the two are one step here. No
  setter is guarded: the call does not look at which call is the latest. A number that
  is not in flight has nothing left to run.\<close>

definition fetchData_settle :: "nat \<Rightarrow> 'd outcome \<Rightarrow> ('d, 'o) fetch_state \<Rightarrow> ('d, 'o) fetch_state" where
  "fetchData_settle i out s =
     (if i \<notin> set (inflight s) then s
      else
        let s1 = s\<lparr>inflight := removeAll i (inflight s)\<rparr>;
            s2 = (case try_body out of
                    Inr result \<Rightarrow> s1\<lparr>data := result\<rparr>
                  | Inl e \<Rightarrow> s1\<lparr>error := Some (catch_error e)\<rparr>)
        in s2\<lparr>loading := False\<rparr>)"

text \<open>One render and its commit: the effect runs when \<open>fetchData\<close> is new, that is on
  mount and when \<open>url\<close> or \<open>options\<close> changed (equality on \<open>options\<close> stands for the
  identity of the object).\<close>

definition useFetch :: "string \<Rightarrow> 'o option \<Rightarrow> ('d, 'o) fetch_state \<Rightarrow> ('d, 'o) fetch_state" where
  "useFetch url options s =
     (if fetch_deps s = Some (url, options) then s
      else fetchData_start (s\<lparr>fetch_deps := Some (url, options)\<rparr>))"

definition refetch :: "('d, 'o) fetch_state \<Rightarrow> ('d, 'o) fetch_state" where
  "refetch s = fetchData_start s"

datatype ('d, 'o) fetch_event =
  Render string "'o option" | Refetch | Settle nat "'d outcome"

fun fetch_step :: "('d, 'o) fetch_event \<Rightarrow> ('d, 'o) fetch_state \<Rightarrow> ('d, 'o) fetch_state" where
  "fetch_step (Render url options) s = useFetch url options s"
| "fetch_step Refetch s = refetch s"
| "fetch_step (Settle i out) s = fetchData_settle i out s"

definition fetch_run :: "('d, 'o) fetch_event list \<Rightarrow> ('d, 'o) fetch_state \<Rightarrow> ('d, 'o) fetch_state" where
  "fetch_run evs s = fold fetch_step evs s"

fun is_trigger :: "('d, 'o) fetch_event \<Rightarrow> bool" where
  "is_trigger (Settle i out) = False"
| "is_trigger _ = True"

fun is_success :: "('d, 'o) fetch_event \<Rightarrow> bool" where
  "is_success (Settle i out) = (case try_body out of Inr r \<Rightarrow> True | Inl e \<Rightarrow> False)"
| "is_success _ = False"

section \<open>Properties of useThrottle\<close>

lemma timer_delay_in_range: "1 \<le> ms \<Longrightarrow> ms \<le> 2147483647 \<Longrightarrow> timer_delay ms = ms"
  by (simp add: timer_delay_def)

lemma timer_delay_bounds: "1 \<le> timer_delay ms" "1 \<le> ms \<Longrightarrow> timer_delay ms \<le> ms"
  by (simp_all add: timer_delay_def)

lemma throttled_leading:
  "delay \<le> th_now s - lastExecuted s \<Longrightarrow>
   throttled delay a s = s\<lparr>fn_calls := fn_calls s @ [(th_now s, a)], lastExecuted := th_now s\<rparr>"
  by (simp add: throttled_def Let_def)

lemma throttled_zero_delay:
  assumes "throttle_inv 0 s"
  shows "throttled 0 a s = s\<lparr>fn_calls := fn_calls s @ [(th_now s, a)], lastExecuted := th_now s\<rparr>"
  using assms by (intro throttled_leading) (simp add: throttle_inv_def)

lemma throttled_first_call:
  assumes "delay \<le> t0"
  shows "fn_calls (throttled delay a (useThrottle_init t0)) = [(t0, a)]"
  using assms by (simp add: throttled_leading useThrottle_init_def)

lemma throttled_cooldown:
  assumes "throttle_inv delay s" and "th_now s - lastExecuted s < delay"
  shows "throttled delay a s =
         s\<lparr>th_timers := [\<lparr>tid = th_nextId s, due = trailing_due delay s, targs = a\<rparr>],
           timeoutId := Some (th_nextId s), th_nextId := th_nextId s + 1\<rparr>"
  using assms
  by (auto simp: throttle_inv_def throttled_def Let_def th_setTimeout_def th_clearTimeout_def
           trailing_due_def split: option.splits)

lemma trailing_due_bounds:
  assumes "lastExecuted s \<le> th_now s" and "th_now s - lastExecuted s < delay"
  shows "th_now s < trailing_due delay s" and "trailing_due delay s \<le> lastExecuted s + delay"
    and "delay \<le> 2147483647 \<Longrightarrow> trailing_due delay s = lastExecuted s + delay"
  using assms by (simp_all add: trailing_due_def timer_delay_def)

lemma th_advance_idle:
  assumes "th_timers s = []"
  shows "th_advance d s = s\<lparr>th_now := th_now s + int d\<rparr>"
  using assms by (simp add: th_advance_def Let_def)

lemma th_advance_early:
  assumes "th_timers s = [t]" and "th_now s + int d < due t"
  shows "th_advance d s = s\<lparr>th_now := th_now s + int d\<rparr>"
  using assms by (simp add: th_advance_def Let_def)

lemma th_advance_fires:
  assumes "th_timers s = [t]" and "due t \<le> th_now s + int d" and "th_now s \<le> due t"
  shows "th_advance d s =
         s\<lparr>th_timers := [], fn_calls := fn_calls s @ [(due t, targs t)],
           lastExecuted := due t, th_now := th_now s + int d\<rparr>"
  using assms by (simp add: th_advance_def Let_def th_fire_def trailing_def max_def)

lemma throttle_inv_init: "0 \<le> t0 \<Longrightarrow> throttle_inv delay (useThrottle_init t0)"
  by (simp add: throttle_inv_def useThrottle_init_def)

lemma throttle_inv_throttled:
  assumes "throttle_inv delay s"
  shows "throttle_inv delay (throttled delay a s)"
proof (cases "delay \<le> th_now s - lastExecuted s")
  case True
  then show ?thesis using assms
    by (auto simp: throttled_leading throttle_inv_def)
next
  case False
  then have c: "th_now s - lastExecuted s < delay" by simp
  have l: "lastExecuted s \<le> th_now s" using assms by (simp add: throttle_inv_def)
  note b = trailing_due_bounds [OF l c]
  show ?thesis using assms b
    by (simp add: throttled_cooldown [OF assms c]) (simp add: throttle_inv_def)
qed

lemma throttle_inv_advance:
  assumes "throttle_inv delay s"
  shows "throttle_inv delay (th_advance d s)"
proof -
  consider (idle) "th_timers s = []"
    | (early) t where "th_timers s = [t]" "th_now s + int d < due t"
    | (fires) t where "th_timers s = [t]" "due t \<le> th_now s + int d" "th_now s \<le> due t"
    using assms by (fastforce simp: throttle_inv_def)
  then show ?thesis
  proof cases
    case idle
    then show ?thesis using assms by (auto simp: th_advance_idle throttle_inv_def)
  next
    case early
    then show ?thesis using assms by (auto simp: th_advance_early throttle_inv_def)
  next
    case fires
    then show ?thesis using assms by (simp add: th_advance_fires throttle_inv_def)
  qed
qed

lemma throttle_inv_step: "throttle_inv delay s \<Longrightarrow> throttle_inv delay (th_step delay ev s)"
  by (cases ev) (simp_all add: throttle_inv_throttled throttle_inv_advance useThrottle_unmount_def)

lemma throttle_inv_run: "throttle_inv delay s \<Longrightarrow> throttle_inv delay (th_run delay evs s)"
  unfolding th_run_def by (induction evs arbitrary: s) (simp_all add: throttle_inv_step)

lemma th_advance_within:
  assumes "throttle_inv delay s" and "delay \<le> 2147483647"
    and "th_now s + int g < lastExecuted s + delay"
  shows "th_advance g s = s\<lparr>th_now := th_now s + int g\<rparr>"
proof (cases "th_timers s")
  case Nil
  then show ?thesis by (rule th_advance_idle)
next
  case (Cons t ts)
  with assms(1,2) have "th_timers s = [t]" "due t = lastExecuted s + delay"
    by (auto simp: throttle_inv_def)
  with assms(3) show ?thesis by (simp add: th_advance_early)
qed

lemma burst_step:
  assumes "throttle_inv delay s" and "delay \<le> 2147483647"
    and "th_now s + int g < lastExecuted s + delay"
  shows "throttled delay a (th_advance g s) =
         s\<lparr>th_now := th_now s + int g,
           th_timers := [\<lparr>tid = th_nextId s, due = lastExecuted s + delay, targs = a\<rparr>],
           timeoutId := Some (th_nextId s), th_nextId := th_nextId s + 1\<rparr>"
proof -
  let ?s1 = "s\<lparr>th_now := th_now s + int g\<rparr>"
  have a: "th_advance g s = ?s1" using assms by (rule th_advance_within)
  have "throttle_inv delay (th_advance g s)" using assms(1) by (rule throttle_inv_advance)
  then have i: "throttle_inv delay ?s1" by (simp add: a)
  have c: "th_now ?s1 - lastExecuted ?s1 < delay" using assms(3) by simp
  have l: "lastExecuted ?s1 \<le> th_now ?s1" using i by (simp add: throttle_inv_def)
  have d: "trailing_due delay ?s1 = lastExecuted s + delay"
    using trailing_due_bounds(3) [OF l c assms(2)] by simp
  show ?thesis by (simp add: a throttled_cooldown [OF i c] d)
qed

lemma burst_facts:
  assumes "throttle_inv delay s" and "delay \<le> 2147483647" and "cs \<noteq> []"
    and "th_now s + int (sum_list (map fst cs)) < lastExecuted s + delay"
  shows "throttle_inv delay (th_burst delay cs s) \<and>
         fn_calls (th_burst delay cs s) = fn_calls s \<and>
         lastExecuted (th_burst delay cs s) = lastExecuted s \<and>
         th_now (th_burst delay cs s) = th_now s + int (sum_list (map fst cs)) \<and>
         map (\<lambda>t. (due t, targs t)) (th_timers (th_burst delay cs s)) =
           [(lastExecuted s + delay, snd (last cs))]"
  using assms
proof (induction cs arbitrary: s)
  case Nil
  then show ?case by simp
next
  case (Cons c cs)
  obtain g a where c: "c = (g, a)" by (cases c)
  let ?s2 = "throttled delay a (th_advance g s)"
  have w: "th_now s + int g < lastExecuted s + delay" using Cons.prems(4) c by simp
  have eq: "?s2 = s\<lparr>th_now := th_now s + int g,
           th_timers := [\<lparr>tid = th_nextId s, due = lastExecuted s + delay, targs = a\<rparr>],
           timeoutId := Some (th_nextId s), th_nextId := th_nextId s + 1\<rparr>"
    using Cons.prems(1,2) w by (rule burst_step)
  have inv2: "throttle_inv delay ?s2"
    using Cons.prems(1) by (simp add: throttle_inv_throttled throttle_inv_advance)
  show ?case
  proof (cases "cs = []")
    case True
    then show ?thesis using inv2 c by (simp add: eq)
  next
    case False
    have "th_now ?s2 + int (sum_list (map fst cs)) < lastExecuted ?s2 + delay"
      using Cons.prems(4) c by (simp add: eq)
    from Cons.IH [OF inv2 Cons.prems(2) False this] show ?thesis using c False by (simp add: eq)
  qed
qed

text \<open>
  Claim C3 (trailing collapse), for a delay within the range of the timer service
  (at most 2147483647 ms). In a reachable state, a call inside the cooldown leaves
  exactly one scheduled invocation, due after the remaining cooldown
  \<open>delay - (now - lastExecuted)\<close>. After any burst of calls that all fall inside the
  cooldown, \<open>func\<close> has not been invoked, the timer table holds one callback, due at
  \<open>lastExecuted + delay\<close> and carrying the arguments of the most recent call; as long as
  that time has not come nothing is invoked, and once it has, the one new invocation is
  at \<open>lastExecuted + delay\<close> with the arguments of the most recent call, so the
  arguments of the calls in between never reach \<open>func\<close>.
\<close>

theorem throttle_trailing_collapse:
  assumes "throttle_inv delay s" and "delay \<le> 2147483647" and "cs \<noteq> []"
    and "th_now s + int (sum_list (map fst cs)) < lastExecuted s + delay"
  shows "th_timers (throttled delay a s) =
           [\<lparr>tid = th_nextId s, due = th_now s + (delay - (th_now s - lastExecuted s)), targs = a\<rparr>] \<and>
         fn_calls (th_burst delay cs s) = fn_calls s \<and>
         map (\<lambda>t. (due t, targs t)) (th_timers (th_burst delay cs s)) =
           [(lastExecuted s + delay, snd (last cs))] \<and>
         (th_now (th_burst delay cs s) + int d < lastExecuted s + delay \<longrightarrow>
            fn_calls (th_advance d (th_burst delay cs s)) = fn_calls s) \<and>
         (lastExecuted s + delay \<le> th_now (th_burst delay cs s) + int d \<longrightarrow>
            fn_calls (th_advance d (th_burst delay cs s)) =
              fn_calls s @ [(lastExecuted s + delay, snd (last cs))])"
proof -
  let ?s' = "th_burst delay cs s"
  have cool: "th_now s - lastExecuted s < delay" using assms(4) by simp
  have l: "lastExecuted s \<le> th_now s" using assms(1) by (simp add: throttle_inv_def)
  have one: "th_timers (throttled delay a s) =
           [\<lparr>tid = th_nextId s, due = th_now s + (delay - (th_now s - lastExecuted s)), targs = a\<rparr>]"
    using trailing_due_bounds(3) [OF l cool assms(2)]
    by (simp add: throttled_cooldown [OF assms(1) cool])
  note f = burst_facts [OF assms]
  from f have inv': "throttle_inv delay ?s'" and calls: "fn_calls ?s' = fn_calls s"
    and le: "lastExecuted ?s' = lastExecuted s"
    and tm: "map (\<lambda>t. (due t, targs t)) (th_timers ?s') = [(lastExecuted s + delay, snd (last cs))]"
    by simp_all
  from tm obtain t where t: "th_timers ?s' = [t]" "due t = lastExecuted s + delay"
    "targs t = snd (last cs)" by auto
  have now': "th_now ?s' < due t" using inv' t(1) by (auto simp: throttle_inv_def)
  have early: "fn_calls (th_advance d ?s') = fn_calls s"
    if "th_now ?s' + int d < lastExecuted s + delay"
    using that t calls by (simp add: th_advance_early)
  have late: "fn_calls (th_advance d ?s') = fn_calls s @ [(lastExecuted s + delay, snd (last cs))]"
    if "lastExecuted s + delay \<le> th_now ?s' + int d"
    using that t calls now' by (simp add: th_advance_fires)
  from one calls tm early late show ?thesis by blast
qed

theorem throttle_trailing_collapse_witness:
  "throttle_inv 100 (throttled 100 ''a'' (useThrottle_init 1000)) \<and>
   fn_calls (th_advance 60 (th_burst 100 [(10, ''b''), (30, ''c'')]
      (throttled 100 ''a'' (useThrottle_init 1000)))) = [(1000, ''a''), (1100, ''c'')]"
proof -
  let ?s = "throttled 100 ''a'' (useThrottle_init 1000)"
  have s: "?s = \<lparr>th_now = 1000, lastExecuted = 1000, timeoutId = None, th_timers = [],
                 th_nextId = 1, fn_calls = [(1000, ''a'')]\<rparr>"
    by (simp add: throttled_def useThrottle_init_def)
  have h1: "throttle_inv 100 ?s" by (simp add: s throttle_inv_def)
  have h0: "(100::int) \<le> 2147483647" by simp
  have h2: "[(10, ''b''), (30, ''c'')] \<noteq> ([] :: (nat \<times> string) list)" by simp
  have h3: "th_now ?s + int (sum_list (map fst [(10, ''b''), (30, ''c'')])) < lastExecuted ?s + 100"
    by (simp add: s)
  let ?b = "th_burst 100 [(10, ''b''), (30, ''c'')] ?s"
  have n: "th_now ?b = 1040"
    using burst_facts [OF h1 h0 h2 h3] by (simp add: s)
  have "lastExecuted ?s + 100 \<le> th_now ?b + int 60" by (simp only: n) (simp add: s)
  with throttle_trailing_collapse [OF h1 h0 h2 h3, of _ 60]
  have "fn_calls (th_advance 60 ?b) =
        fn_calls ?s @ [(lastExecuted ?s + 100, snd (last [(10::nat, ''b''), (30, ''c'')]))]"
    by blast
  with h1 show ?thesis by (simp add: s)
qed

text \<open>
  Claim C3 as stated, for every delay, fails beyond the range of the timer service:
  with a delay of 3000000000, a call at 1700000000000 is immediate; a call 10 ms later
  falls inside the cooldown and passes a remaining delay of 2999999990 to
  \<open>setTimeout\<close>, which the runtime arms for 1 ms; the trailing invocation runs at
  1700000000011 and not at \<open>lastExecuted + delay = 1703000000000\<close>.
\<close>

theorem throttle_trailing_fires_early:
  "th_timers (th_run 3000000000 [Call ''a'', Wait 10, Call ''b'']
      (useThrottle_init 1700000000000)) =
     [\<lparr>tid = 1, due = 1700000000011, targs = ''b''\<rparr>] \<and>
   fn_calls (th_run 3000000000 [Call ''a'', Wait 10, Call ''b'', Wait 1]
      (useThrottle_init 1700000000000)) =
     [(1700000000000, ''a''), (1700000000011, ''b'')]"
  by (simp add: th_run_def throttled_def useThrottle_init_def th_setTimeout_def
        timer_delay_def th_advance_def th_fire_def trailing_def)



text \<open>
  Claim C5 (leading edge, first call, zero delay). The first call through a fresh
  throttler is compared with the initial \<open>lastExecuted = 0\<close>: when the clock reads less
  than the delay, here \<open>Date.now() = 1700000000000\<close> with a delay of
  \<open>1700000001000\<close>, \<open>func\<close> is not invoked by the first call; the call is deferred by
  1000 ms.
\<close>

theorem throttle_first_call_deferred:
  "fn_calls (throttled 1700000001000 ''x'' (useThrottle_init 1700000000000)) = [] \<and>
   th_timers (throttled 1700000001000 ''x'' (useThrottle_init 1700000000000)) =
     [\<lparr>tid = 1, due = 1700000001000, targs = ''x''\<rparr>]"
  by (simp add: throttled_def useThrottle_init_def th_setTimeout_def timer_delay_def)

text \<open>
  Claim C2 (detach safety). With a delay of 100, a call at 1000 is immediate and a call
  at 1010 schedules the trailing invocation; the consumer unmounts; 90 ms later
  \<open>func\<close> is invoked with the arguments of the second call and \<open>lastExecuted\<close> is
  written, both after the unmount.
\<close>

theorem throttle_fires_after_unmount:
  "fn_calls (th_run 100 [Call ''a'', Wait 10, Call ''b'', Unmount]
      (useThrottle_init 1000)) = [(1000, ''a'')] \<and>
   fn_calls (th_run 100 [Call ''a'', Wait 10, Call ''b'', Unmount, Wait 90]
      (useThrottle_init 1000)) = [(1000, ''a''), (1100, ''b'')] \<and>
   lastExecuted (th_run 100 [Call ''a'', Wait 10, Call ''b'', Unmount, Wait 90]
      (useThrottle_init 1000)) = 1100"
  by (simp add: th_run_def throttled_def useThrottle_init_def th_setTimeout_def
        timer_delay_def th_advance_def th_fire_def trailing_def useThrottle_unmount_def)

section \<open>Properties of useInterval\<close>

lemma iv_tick_early:
  assumes "iv_timers s = [t]" and "iv_now s + 1 < it_due t"
  shows "iv_tick s = s\<lparr>iv_now := iv_now s + 1\<rparr>"
  using assms by (cases s) (simp add: iv_tick_def Let_def)

lemma iv_tick_fires:
  assumes "iv_timers s = [t]" and "it_due t = iv_now s + 1" and "savedCallback s = Some cb"
  shows "iv_tick s = s\<lparr>iv_now := iv_now s + 1,
           iv_timers := [t\<lparr>it_due := it_due t + it_period t\<rparr>],
           cb_calls := cb_calls s @ [(iv_now s + 1, cb)]\<rparr>"
  using assms by (cases s) (simp add: iv_tick_def Let_def interval_fire_def)

lemma iv_tick_idle:
  assumes "iv_timers s = []"
  shows "iv_tick s = s\<lparr>iv_now := iv_now s + 1\<rparr>"
  using assms by (cases s) (simp add: iv_tick_def Let_def)

lemma iv_advance_idle:
  assumes "iv_timers s = []"
  shows "iv_advance n s = s\<lparr>iv_now := iv_now s + int n\<rparr>"
  using assms
proof (induction n arbitrary: s)
  case 0
  then show ?case by simp
next
  case (Suc n)
  have "iv_timers (iv_tick s) = []" using Suc.prems by (simp add: iv_tick_idle)
  from Suc.IH [OF this] show ?case using Suc.prems by (simp add: iv_tick_idle)
qed

lemma iv_advance_early:
  assumes "iv_timers s = [t]" and "iv_now s + int n < it_due t"
  shows "iv_advance n s = s\<lparr>iv_now := iv_now s + int n\<rparr>"
  using assms
proof (induction n arbitrary: s)
  case 0
  then show ?case by simp
next
  case (Suc n)
  have "iv_now s + 1 < it_due t" using Suc.prems(2) by linarith
  with Suc.prems(1) have e: "iv_tick s = s\<lparr>iv_now := iv_now s + 1\<rparr>"
    by (rule iv_tick_early)
  have "iv_timers (iv_tick s) = [t]" "iv_now (iv_tick s) + int n < it_due t"
    using Suc.prems by (simp_all add: e)
  from Suc.IH [OF this] show ?case by (simp add: e)
qed

lemma iv_advance_Suc_end: "iv_advance (Suc n) s = iv_tick (iv_advance n s)"
  by (induction n arbitrary: s) simp_all

lemma iv_advance_fires:
  assumes "iv_timers s = [t]" and "iv_now s < it_due t" and "savedCallback s = Some cb"
  shows "iv_advance (nat (it_due t - iv_now s)) s =
         s\<lparr>iv_now := it_due t,
           iv_timers := [t\<lparr>it_due := it_due t + it_period t\<rparr>],
           cb_calls := cb_calls s @ [(it_due t, cb)]\<rparr>"
proof -
  define n where "n = nat (it_due t - iv_now s) - 1"
  have n1: "nat (it_due t - iv_now s) = Suc n" using assms(2) by (simp add: n_def)
  have n2: "iv_now s + int n + 1 = it_due t" using assms(2) by (simp add: n_def)
  let ?s1 = "s\<lparr>iv_now := iv_now s + int n\<rparr>"
  have "iv_now s + int n < it_due t" using n2 by linarith
  with assms(1) have a: "iv_advance n s = ?s1"
    by (rule iv_advance_early)
  have "iv_tick ?s1 = ?s1\<lparr>iv_now := iv_now ?s1 + 1,
           iv_timers := [t\<lparr>it_due := it_due t + it_period t\<rparr>],
           cb_calls := cb_calls ?s1 @ [(iv_now ?s1 + 1, cb)]\<rparr>"
    using assms n2 by (intro iv_tick_fires) simp_all
  then have "iv_tick ?s1 = s\<lparr>iv_now := it_due t,
           iv_timers := [t\<lparr>it_due := it_due t + it_period t\<rparr>],
           cb_calls := cb_calls s @ [(it_due t, cb)]\<rparr>"
    by (simp add: n2)
  then show ?thesis unfolding n1 iv_advance_Suc_end a .
qed

lemma useInterval_same_delay:
  assumes "interval_inv p s"
  shows "useInterval cb (Some p) s = s\<lparr>savedCallback := Some cb, callback_dep := Some cb\<rparr>"
  using assms by (cases s) (auto simp: interval_inv_def useInterval_def Let_def)

lemma interval_inv_useInterval:
  assumes "interval_inv p s"
  shows "interval_inv p (useInterval cb (Some p) s)"
  using assms by (simp add: useInterval_same_delay) (simp add: interval_inv_def)

lemma interval_inv_mount:
  assumes "p \<le> 2147483647"
  shows "interval_inv p (useInterval cb (Some p) (useInterval_init t0))"
  using assms
  by (simp add: interval_inv_def useInterval_def useInterval_init_def Let_def
        interval_cleanup_def interval_effect_def iv_setInterval_def timer_delay_def)


lemma rerender_step:
  assumes "interval_inv p s" and "iv_timers s = [t]" and "iv_now s + int g < it_due t"
  shows "useInterval cb (Some p) (iv_advance g s) =
         s\<lparr>iv_now := iv_now s + int g, savedCallback := Some cb, callback_dep := Some cb\<rparr>"
    and "interval_inv p (useInterval cb (Some p) (iv_advance g s))"
proof -
  let ?s1 = "s\<lparr>iv_now := iv_now s + int g\<rparr>"
  have a: "iv_advance g s = ?s1" using assms(2,3) by (rule iv_advance_early)
  have i: "interval_inv p ?s1" using assms by (simp add: interval_inv_def)
  show "useInterval cb (Some p) (iv_advance g s) =
         s\<lparr>iv_now := iv_now s + int g, savedCallback := Some cb, callback_dep := Some cb\<rparr>"
    by (simp add: a useInterval_same_delay [OF i])
  show "interval_inv p (useInterval cb (Some p) (iv_advance g s))"
    using i by (simp add: a interval_inv_useInterval)
qed

lemma rerenders_facts:
  assumes "interval_inv p s" and "iv_timers s = [t]" and "callback_dep s = Some c0"
    and "iv_now s + int (sum_list (map fst rs)) < it_due t"
  shows "interval_inv p (iv_rerenders p rs s) \<and>
         iv_timers (iv_rerenders p rs s) = [t] \<and>
         cleanup_id (iv_rerenders p rs s) = cleanup_id s \<and>
         cb_calls (iv_rerenders p rs s) = cb_calls s \<and>
         iv_now (iv_rerenders p rs s) = iv_now s + int (sum_list (map fst rs)) \<and>
         savedCallback (iv_rerenders p rs s) = Some (last (c0 # map snd rs))"
  using assms
proof (induction rs arbitrary: s c0)
  case Nil
  then show ?case by (simp add: interval_inv_def)
next
  case (Cons r rs)
  obtain g cb where r: "r = (g, cb)" by (cases r)
  let ?s2 = "useInterval cb (Some p) (iv_advance g s)"
  have w: "iv_now s + int g < it_due t" using Cons.prems(4) r by simp
  note st = rerender_step [OF Cons.prems(1,2) w, of cb]
  have "iv_timers ?s2 = [t]" "callback_dep ?s2 = Some cb"
    "iv_now ?s2 + int (sum_list (map fst rs)) < it_due t"
    using Cons.prems(2,4) r by (simp_all add: st(1))
  from Cons.IH [OF st(2) this] show ?case using r by (simp add: st(1))
qed

lemma interval_fire_reads_ref:
  "savedCallback s = Some cb \<Longrightarrow> cb_calls (interval_fire s) = cb_calls s @ [(iv_now s, cb)]"
  by (simp add: interval_fire_def)

text \<open>
  Claim C6 (always the latest callback). For a mounted hook with a non-null period whose
  interval is pending, any sequence of re-renders that replace the callback and keep the
  period, all before the next firing, leaves the timer table and the pending cleanup as
  they were (the interval is neither cleared nor armed again) and invokes nothing; the
  next firing happens at the time that was due before the re-renders, invokes the
  callback of the last render (the callback in place before them when there was no
  re-render), and the firing after that is due one period later.
\<close>

theorem interval_latest_callback:
  assumes "interval_inv p s" and "iv_timers s = [t]" and "callback_dep s = Some c0"
    and "iv_now s + int (sum_list (map fst rs)) < it_due t"
  shows "iv_timers (iv_rerenders p rs s) = iv_timers s \<and>
         cleanup_id (iv_rerenders p rs s) = cleanup_id s \<and>
         cb_calls (iv_rerenders p rs s) = cb_calls s \<and>
         iv_now (iv_rerenders p rs s) = iv_now s + int (sum_list (map fst rs)) \<and>
         cb_calls (iv_advance (nat (it_due t - iv_now (iv_rerenders p rs s))) (iv_rerenders p rs s)) =
           cb_calls s @ [(it_due t, last (c0 # map snd rs))] \<and>
         iv_timers (iv_advance (nat (it_due t - iv_now (iv_rerenders p rs s))) (iv_rerenders p rs s)) =
           [t\<lparr>it_due := it_due t + max 1 p\<rparr>]"
proof -
  let ?s' = "iv_rerenders p rs s"
  note f = rerenders_facts [OF assms]
  from f have tm: "iv_timers ?s' = [t]" and sc: "savedCallback ?s' = Some (last (c0 # map snd rs))"
    and now: "iv_now ?s' < it_due t" and calls: "cb_calls ?s' = cb_calls s"
    using assms(4) by simp_all
  have per: "it_period t = max 1 p" using assms(1,2) by (simp add: interval_inv_def)
  note fire = iv_advance_fires [OF tm now sc]
  have "cb_calls (iv_advance (nat (it_due t - iv_now ?s')) ?s') =
        cb_calls s @ [(it_due t, last (c0 # map snd rs))]"
    by (simp only: fire) (simp add: calls)
  moreover have "iv_timers (iv_advance (nat (it_due t - iv_now ?s')) ?s') =
        [t\<lparr>it_due := it_due t + max 1 p\<rparr>]"
    by (simp only: fire) (simp add: per)
  ultimately show ?thesis using f assms(2) by simp
qed

theorem interval_latest_callback_witness:
  "interval_inv 50 (useInterval ''X'' (Some 50) (useInterval_init 7)) \<and>
   iv_timers (iv_rerenders 50 [(20, ''Y'')] (useInterval ''X'' (Some 50) (useInterval_init 7))) =
     [\<lparr>it_id = 1, it_period = 50, it_due = 57\<rparr>] \<and>
   cb_calls (iv_advance 30 (iv_rerenders 50 [(20, ''Y'')]
     (useInterval ''X'' (Some 50) (useInterval_init 7)))) = [(57, ''Y'')]"
proof -
  let ?s = "useInterval ''X'' (Some 50) (useInterval_init 7) :: string interval_state"
  let ?t = "\<lparr>it_id = 1, it_period = 50, it_due = 57\<rparr>"
  have s: "?s = \<lparr>iv_now = 7, savedCallback = Some ''X'', callback_dep = Some ''X'',
                 delay_dep = Some (Some 50), cleanup_id = Some 1, iv_timers = [?t],
                 iv_nextId = 2, cb_calls = []\<rparr>"
    by (simp add: useInterval_def useInterval_init_def Let_def interval_cleanup_def
          interval_effect_def iv_setInterval_def timer_delay_def)
  have h1: "interval_inv 50 ?s" by (rule interval_inv_mount) simp
  have h2: "iv_timers ?s = [?t]" by (simp add: s)
  have h3: "callback_dep ?s = Some ''X''" by (simp add: s)
  have h4: "iv_now ?s + int (sum_list (map fst [(20, ''Y'')])) < it_due ?t" by (simp add: s)
  note w = interval_latest_callback [OF h1 h2 h3 h4]
  from w have n: "iv_now (iv_rerenders 50 [(20, ''Y'')] ?s) = 27" by (simp add: s)
  from w have "cb_calls (iv_advance (nat (it_due ?t - iv_now (iv_rerenders 50 [(20, ''Y'')] ?s)))
                 (iv_rerenders 50 [(20, ''Y'')] ?s)) =
               cb_calls ?s @ [(it_due ?t, last (''X'' # map snd [(20::nat, ''Y'')]))]"
    by blast
  then have "cb_calls (iv_advance 30 (iv_rerenders 50 [(20, ''Y'')] ?s)) = [(57, ''Y'')]"
    by (simp only: n) (simp add: s)
  moreover from w have "iv_timers (iv_rerenders 50 [(20, ''Y'')] ?s) = [?t]"
    by (simp add: s)
  ultimately show ?thesis using h1 by blast
qed

lemma interval_unmount_clears:
  assumes "interval_inv p s"
  shows "iv_timers (useInterval_unmount s) = []"
    and "cb_calls (iv_advance n (useInterval_unmount s)) = cb_calls s"
    and "savedCallback (iv_advance n (useInterval_unmount s)) = savedCallback s"
proof -
  show e: "iv_timers (useInterval_unmount s) = []"
    using assms
    by (auto simp: interval_inv_def useInterval_unmount_def interval_cleanup_def
          iv_clearInterval_def)
  have c: "cb_calls (useInterval_unmount s) = cb_calls s"
    "savedCallback (useInterval_unmount s) = savedCallback s"
    by (simp_all add: useInterval_unmount_def interval_cleanup_def iv_clearInterval_def
          split: option.splits)
  show "cb_calls (iv_advance n (useInterval_unmount s)) = cb_calls s"
    by (simp add: iv_advance_idle [OF e] c)
  show "savedCallback (iv_advance n (useInterval_unmount s)) = savedCallback s"
    by (simp add: iv_advance_idle [OF e] c)
qed

section \<open>Properties of useDebounce\<close>

lemma debounce_change:
  assumes "\<not> detached s" and "v \<noteq> seenInput s"
  shows "debounce v delayMs s = s\<lparr>seenInput := v, pendingTimer := Some (db_now s + delayMs, v)\<rparr>"
  using assms by (simp add: debounce_def)

lemma db_advance_idle:
  assumes "pendingTimer s = None"
  shows "db_advance d s = s\<lparr>db_now := db_now s + int d\<rparr>"
  using assms by (simp add: db_advance_def)

lemma db_advance_early:
  assumes "pendingTimer s = Some (at, v)" and "db_now s + int d < at"
  shows "db_advance d s = s\<lparr>db_now := db_now s + int d\<rparr>"
  using assms by (simp add: db_advance_def)

lemma db_advance_fires:
  assumes "pendingTimer s = Some (at, v)" and "at \<le> db_now s + int d" and "db_now s \<le> at"
  shows "db_advance d s = s\<lparr>db_now := db_now s + int d, currentOutput := v,
           pendingTimer := None, published := published s @ [(at, v)]\<rparr>"
  using assms by (simp add: db_advance_def max_def)

lemma change_step:
  assumes "\<not> detached s" and "v \<noteq> seenInput s" and "int g < delayMs"
    and "pendingTimer s = None \<or> (\<exists>u. pendingTimer s = Some (db_now s + delayMs, u))"
  shows "debounce v delayMs (db_advance g s) =
         s\<lparr>db_now := db_now s + int g, seenInput := v,
           pendingTimer := Some (db_now s + int g + delayMs, v)\<rparr>"
proof -
  have a: "db_advance g s = s\<lparr>db_now := db_now s + int g\<rparr>"
    using assms(3,4) by (auto simp: db_advance_idle db_advance_early)
  show ?thesis using assms(1,2) by (simp add: a debounce_change)
qed

lemma changes_facts:
  assumes "\<not> detached s" and "cs \<noteq> []"
    and "\<forall>g \<in> set (map fst cs). int g < delayMs"
    and "changing (seenInput s) (map snd cs)"
    and "pendingTimer s = None \<or> (\<exists>u. pendingTimer s = Some (db_now s + delayMs, u))"
  shows "\<not> detached (db_changes delayMs cs s) \<and>
         published (db_changes delayMs cs s) = published s \<and>
         currentOutput (db_changes delayMs cs s) = currentOutput s \<and>
         db_now (db_changes delayMs cs s) = db_now s + int (sum_list (map fst cs)) \<and>
         pendingTimer (db_changes delayMs cs s) =
           Some (db_now (db_changes delayMs cs s) + delayMs, snd (last cs))"
  using assms
proof (induction cs arbitrary: s)
  case Nil
  then show ?case by simp
next
  case (Cons c cs)
  obtain g v where c: "c = (g, v)" by (cases c)
  let ?s2 = "debounce v delayMs (db_advance g s)"
  have eq: "?s2 = s\<lparr>db_now := db_now s + int g, seenInput := v,
           pendingTimer := Some (db_now s + int g + delayMs, v)\<rparr>"
    using Cons.prems c by (intro change_step) simp_all
  show ?case
  proof (cases "cs = []")
    case True
    then show ?thesis using Cons.prems(1) c by (simp add: eq)
  next
    case False
    have "\<not> detached ?s2" "\<forall>g \<in> set (map fst cs). int g < delayMs"
      "changing (seenInput ?s2) (map snd cs)"
      "pendingTimer ?s2 = None \<or> (\<exists>u. pendingTimer ?s2 = Some (db_now ?s2 + delayMs, u))"
      using Cons.prems c by (simp_all add: eq)
    from Cons.IH [OF this(1) False this(2,3,4)] show ?thesis using c False by (simp add: eq)
  qed
qed

text \<open>
  Claim C4 (debounce quiescence). From an attached holder with no timer pending, take a
  burst of one or more observations, each less than \<open>delayMs\<close> after the one before
  and each with an input that differs from the one seen before it. During the burst and
  for less than \<open>delayMs\<close> after its last change the output is the value published
  before and nothing is published; once \<open>delayMs\<close> has passed there is exactly one new
  publication, dated \<open>delayMs\<close> after the last change and carrying the value of the
  last change, and waiting longer adds none. The inputs in between are never published.
\<close>

theorem debounce_quiescence:
  assumes "\<not> detached s" and "pendingTimer s = None" and "cs \<noteq> []"
    and "\<forall>g \<in> set (map fst cs). int g < delayMs"
    and "changing (seenInput s) (map snd cs)"
  shows "currentOutput (db_changes delayMs cs s) = currentOutput s \<and>
         published (db_changes delayMs cs s) = published s \<and>
         (int d < delayMs \<longrightarrow>
            currentOutput (db_advance d (db_changes delayMs cs s)) = currentOutput s \<and>
            published (db_advance d (db_changes delayMs cs s)) = published s) \<and>
         (delayMs \<le> int d \<longrightarrow>
            currentOutput (db_advance e (db_advance d (db_changes delayMs cs s))) = snd (last cs) \<and>
            published (db_advance e (db_advance d (db_changes delayMs cs s))) =
              published s @ [(db_now (db_changes delayMs cs s) + delayMs, snd (last cs))])"
proof -
  let ?s' = "db_changes delayMs cs s"
  let ?at = "db_now ?s' + delayMs"
  let ?v = "snd (last cs)"
  have "pendingTimer s = None \<or> (\<exists>u. pendingTimer s = Some (db_now s + delayMs, u))"
    using assms(2) by simp
  note f = changes_facts [OF assms(1,3,4,5) this]
  from f have pt: "pendingTimer ?s' = Some (?at, ?v)" and pub: "published ?s' = published s"
    and out: "currentOutput ?s' = currentOutput s" by simp_all
  have pos: "0 < delayMs" using assms(3,4) by (cases cs) auto
  have early: "currentOutput (db_advance d ?s') = currentOutput s \<and>
               published (db_advance d ?s') = published s" if "int d < delayMs"
    using that pub out by (simp add: db_advance_early [OF pt])
  have late: "currentOutput (db_advance e (db_advance d ?s')) = ?v \<and>
              published (db_advance e (db_advance d ?s')) = published s @ [(?at, ?v)]"
    if "delayMs \<le> int d"
  proof -
    have 1: "db_advance d ?s' = ?s'\<lparr>db_now := db_now ?s' + int d, currentOutput := ?v,
           pendingTimer := None, published := published ?s' @ [(?at, ?v)]\<rparr>"
      using that pos by (intro db_advance_fires [OF pt]) simp_all
    have 2: "pendingTimer (db_advance d ?s') = None" by (simp add: 1)
    show ?thesis by (simp add: db_advance_idle [OF 2]) (simp add: 1 pub)
  qed
  from out pub early late show ?thesis by blast
qed

theorem debounce_quiescence_witness:
  "\<not> detached (debounce_attach ''a'' 0) \<and>
   currentOutput (db_advance 499 (db_changes 500 [(50, ''ab''), (50, ''abc'')]
      (debounce_attach ''a'' 0))) = ''a'' \<and>
   published (db_advance 0 (db_advance 500 (db_changes 500 [(50, ''ab''), (50, ''abc'')]
      (debounce_attach ''a'' 0)))) = [(600, ''abc'')]"
proof -
  let ?s = "debounce_attach ''a'' 0"
  let ?cs = "[(50::nat, ''ab''), (50, ''abc'')]"
  have h1: "\<not> detached ?s" by (simp add: debounce_attach_def)
  have h2: "pendingTimer ?s = None" by (simp add: debounce_attach_def)
  have h3: "?cs \<noteq> []" by simp
  have h4: "\<forall>g \<in> set (map fst ?cs). int g < 500" by simp
  have h5: "changing (seenInput ?s) (map snd ?cs)" by (simp add: debounce_attach_def)
  have n: "db_now (db_changes 500 ?cs ?s) = 100"
    by (simp add: debounce_attach_def debounce_def db_advance_def)
  from debounce_quiescence [OF h1 h2 h3 h4 h5, of 499]
  have a: "currentOutput (db_advance 499 (db_changes 500 ?cs ?s)) = currentOutput ?s" by simp
  from debounce_quiescence [OF h1 h2 h3 h4 h5, of 500 0]
  have b: "published (db_advance 0 (db_advance 500 (db_changes 500 ?cs ?s))) =
           published ?s @ [(db_now (db_changes 500 ?cs ?s) + 500, snd (last ?cs))]" by simp
  show ?thesis using h1 a b by (simp only: n) (simp add: debounce_attach_def)
qed

lemma debounce_detach_safe:
  "published (db_advance d (debounce_detach s)) = published s \<and>
   currentOutput (db_advance d (debounce_detach s)) = currentOutput s \<and>
   debounce v delayMs (debounce_detach s) = debounce_detach s"
  by (simp add: debounce_detach_def db_advance_def debounce_def)

section \<open>Properties of useFetch\<close>

lemma settle_failure:
  assumes "i \<in> set (inflight s)" and "try_body out = Inl e"
  shows "fetchData_settle i out s =
         s\<lparr>inflight := removeAll i (inflight s), error := Some (catch_error e), loading := False\<rparr>"
  using assms by (simp add: fetchData_settle_def)

lemma settle_success:
  assumes "i \<in> set (inflight s)" and "try_body out = Inr r"
  shows "fetchData_settle i out s =
         s\<lparr>inflight := removeAll i (inflight s), data := r, loading := False\<rparr>"
  using assms by (simp add: fetchData_settle_def)

lemma try_body_cases:
  "try_body (Rejected e) = Inl e"
  "try_body (Resolved False status js) = Inl (ThrownError (''HTTP error! status: '' @ string_of_nat status))"
  "try_body (Resolved True status (JsonRejected e)) = Inl e"
  "try_body (Resolved True status (JsonOk r)) = Inr r"
  by (simp_all add: try_body_def)

text \<open>
  Claim C7 (failure normalization). When a call of \<open>fetchData\<close> that is in flight
  settles in any of the three ways it can fail (the transport rejects, the response is
  not ok, decoding the payload of an ok response rejects), the same writes happen:
  \<open>error\<close> becomes an \<open>Error\<close> and \<open>loading\<close> becomes false, and nothing else of the
  visible state changes. The three differ in the message alone: the message of the
  rejection (or \<open>An error occurred\<close> when the rejection is not an \<open>Error\<close>), or
  \<open>HTTP error! status: \<close> followed by the status.
\<close>

theorem fetch_failure_normalized:
  assumes "i \<in> set (inflight s)"
  shows "fetchData_settle i (Rejected e) s =
           s\<lparr>inflight := removeAll i (inflight s), error := Some (catch_error e), loading := False\<rparr> \<and>
         fetchData_settle i (Resolved False status js) s =
           s\<lparr>inflight := removeAll i (inflight s),
             error := Some (Error (''HTTP error! status: '' @ string_of_nat status)),
             loading := False\<rparr> \<and>
         fetchData_settle i (Resolved True status (JsonRejected e)) s =
           s\<lparr>inflight := removeAll i (inflight s), error := Some (catch_error e), loading := False\<rparr> \<and>
         catch_error (ThrownError m) = Error m \<and>
         catch_error ThrownOther = Error ''An error occurred''"
  using assms
  by (simp add: settle_failure try_body_cases del: string_of_nat.simps) (simp add: catch_error_def)

theorem fetch_failure_normalized_witness:
  "(0::nat) \<in> set (inflight (useFetch ''/api/test'' (None :: string option) (useFetch_init :: (string, string) fetch_state))) \<and>
   error (fetchData_settle 0 (Resolved False 404 (JsonOk None))
     (useFetch ''/api/test'' (None :: string option) (useFetch_init :: (string, string) fetch_state)))
     = Some (Error ''HTTP error! status: 404'') \<and>
   \<not> loading (fetchData_settle 0 (Rejected (ThrownError ''Network error''))
     (useFetch ''/api/test'' (None :: string option) (useFetch_init :: (string, string) fetch_state)))"
proof -
  let ?s = "useFetch ''/api/test'' (None :: string option) (useFetch_init :: (string, string) fetch_state)"
  have h: "(0::nat) \<in> set (inflight ?s)"
    by (simp add: useFetch_def useFetch_init_def fetchData_start_def)
  from fetch_failure_normalized [OF h, of "ThrownError ''Network error''" 404 "JsonOk None"]
  show ?thesis using h by simp
qed

lemma triggers_keep:
  assumes "list_all is_trigger evs" and "loading s" and "data s = None" and "error s = None"
  shows "loading (fetch_run evs s) \<and> data (fetch_run evs s) = None \<and> error (fetch_run evs s) = None"
  using assms unfolding fetch_run_def
proof (induction evs arbitrary: s)
  case Nil
  then show ?case by simp
next
  case (Cons ev evs)
  have "loading (fetch_step ev s) \<and> data (fetch_step ev s) = None \<and> error (fetch_step ev s) = None"
    using Cons.prems by (cases ev) (simp_all add: useFetch_def refetch_def fetchData_start_def)
  with Cons.IH [of "fetch_step ev s"] Cons.prems(1) show ?case by simp
qed

text \<open>
  Claim C10 (initial state). The hook is created with \<open>loading = true\<close>,
  \<open>data = null\<close>, \<open>error = null\<close>, and as long as nothing has settled, whatever
  renders and refetches happen, these three values stay.
\<close>

theorem fetch_initial_state:
  "loading (useFetch_init :: ('d, 'o) fetch_state) \<and>
   data (useFetch_init :: ('d, 'o) fetch_state) = None \<and>
   error (useFetch_init :: ('d, 'o) fetch_state) = None \<and>
   (list_all is_trigger evs \<longrightarrow>
      loading (fetch_run evs (useFetch_init :: ('d, 'o) fetch_state)) \<and>
      data (fetch_run evs (useFetch_init :: ('d, 'o) fetch_state)) = None \<and>
      error (fetch_run evs (useFetch_init :: ('d, 'o) fetch_state)) = None)"
proof -
  have i: "loading (useFetch_init :: ('d, 'o) fetch_state)"
    "data (useFetch_init :: ('d, 'o) fetch_state) = None"
    "error (useFetch_init :: ('d, 'o) fetch_state) = None"
    by (simp_all add: useFetch_init_def)
  with triggers_keep [of evs "useFetch_init :: ('d, 'o) fetch_state"] show ?thesis by blast
qed

theorem fetch_initial_state_witness:
  "list_all is_trigger [Render ''/api/test'' None :: (string, string) fetch_event] \<and>
   loading (fetch_run [Render ''/api/test'' None] (useFetch_init :: (string, string) fetch_state)) \<and>
   data (fetch_run [Render ''/api/test'' None] (useFetch_init :: (string, string) fetch_state)) = None \<and>
   error (fetch_run [Render ''/api/test'' None] (useFetch_init :: (string, string) fetch_state)) = None"
proof -
  have h: "list_all is_trigger [Render ''/api/test'' None :: (string, string) fetch_event]" by simp
  from fetch_initial_state [of "[Render ''/api/test'' None :: (string, string) fetch_event]"] h
  show ?thesis by blast
qed


lemma removeAll_as_filter: "removeAll i xs = filter (\<lambda>j. j \<noteq> i) xs"
  by (induction xs) auto

lemma filter_absent: "i \<notin> set xs \<Longrightarrow> filter (\<lambda>j. j \<noteq> i) xs = xs"
  by (induction xs) auto

lemma inflight_settle:
  "inflight (fetchData_settle i out s) = filter (\<lambda>j. j \<noteq> i) (inflight s)"
  by (cases "try_body out")
     (simp_all add: fetchData_settle_def Let_def removeAll_as_filter filter_absent)

lemma inflight_settles:
  "inflight (fetch_run (map (\<lambda>(i, out). Settle i out) ss) s) =
   filter (\<lambda>j. j \<notin> set (map fst ss)) (inflight s)"
  unfolding fetch_run_def
proof (induction ss arbitrary: s)
  case Nil
  then show ?case by simp
next
  case (Cons c ss)
  obtain i out where c: "c = (i, out)" by (cases c)
  show ?case using Cons.IH [of "fetchData_settle i out s"] c
    by (simp add: inflight_settle conj_commute)
qed

lemma fetch_run_snoc: "fetch_run (evs @ [ev]) s = fetch_step ev (fetch_run evs s)"
  by (simp add: fetch_run_def)

text \<open>
  Claim C1, as the code has it. There is no staleness guard: the settlement of any call
  in flight, the most recent or an earlier one, is applied (a success writes \<open>data\<close>,
  a failure writes \<open>error\<close>, both set \<open>loading\<close> to false). When every call in flight has
  settled, each once and in any order, nothing is in flight, \<open>loading\<close> is false, and the
  visible \<open>data\<close> (after a success) or \<open>error\<close> (after a failure) is that of the call
  that settled last, whichever trigger started it.
\<close>

theorem fetch_last_settlement_wins:
  assumes "distinct (map fst ss)" and "set (map fst ss) = set (inflight s)" and "ss \<noteq> []"
  shows "(j \<in> set (inflight s) \<longrightarrow>
            (case try_body out of
               Inr r \<Rightarrow> fetchData_settle j out s =
                 s\<lparr>inflight := removeAll j (inflight s), data := r, loading := False\<rparr>
             | Inl e \<Rightarrow> fetchData_settle j out s =
                 s\<lparr>inflight := removeAll j (inflight s), error := Some (catch_error e),
                   loading := False\<rparr>)) \<and>
         inflight (fetch_run (map (\<lambda>(i, out). Settle i out) ss) s) = [] \<and>
         \<not> loading (fetch_run (map (\<lambda>(i, out). Settle i out) ss) s) \<and>
         (case try_body (snd (last ss)) of
            Inr r \<Rightarrow> data (fetch_run (map (\<lambda>(i, out). Settle i out) ss) s) = r
          | Inl e \<Rightarrow> error (fetch_run (map (\<lambda>(i, out). Settle i out) ss) s) = Some (catch_error e))"
proof -
  obtain ss' i o' where ss: "ss = ss' @ [(i, o')]"
    using assms(3) by (cases ss rule: rev_cases) auto
  let ?m = "fetch_run (map (\<lambda>(i, out). Settle i out) ss') s"
  have run: "fetch_run (map (\<lambda>(i, out). Settle i out) ss) s = fetchData_settle i o' ?m"
    by (simp add: ss fetch_run_snoc)
  have "i \<in> set (inflight s)" "i \<notin> set (map fst ss')"
    using assms(1,2) by (auto simp: ss)
  then have mem: "i \<in> set (inflight ?m)" by (simp add: inflight_settles)
  have one: "j \<in> set (inflight s) \<longrightarrow>
            (case try_body out of
               Inr r \<Rightarrow> fetchData_settle j out s =
                 s\<lparr>inflight := removeAll j (inflight s), data := r, loading := False\<rparr>
             | Inl e \<Rightarrow> fetchData_settle j out s =
                 s\<lparr>inflight := removeAll j (inflight s), error := Some (catch_error e),
                   loading := False\<rparr>)"
    by (cases "try_body out") (simp_all add: settle_failure settle_success)
  have empty: "inflight (fetch_run (map (\<lambda>(i, out). Settle i out) ss) s) = []"
    using assms(2) by (simp add: inflight_settles filter_empty_conv)
  have idle: "\<not> loading (fetch_run (map (\<lambda>(i, out). Settle i out) ss) s)"
    using mem by (cases "try_body o'") (simp_all add: run settle_failure settle_success)
  have l: "snd (last ss) = o'" by (simp add: ss)
  have res: "case try_body (snd (last ss)) of
            Inr r \<Rightarrow> data (fetch_run (map (\<lambda>(i, out). Settle i out) ss) s) = r
          | Inl e \<Rightarrow> error (fetch_run (map (\<lambda>(i, out). Settle i out) ss) s) = Some (catch_error e)"
    unfolding run l using mem
    by (cases "try_body o'") (simp_all add: settle_failure settle_success)
  from one empty idle res show ?thesis by blast
qed


theorem fetch_last_settlement_wins_witness:
  "distinct (map fst [(1::nat, Resolved True 200 (JsonOk (Some ''B''))),
                      (0, Resolved True 200 (JsonOk (Some ''A'')))]) \<and>
   data (fetch_run [Render ''/a'' (None :: string option), Render ''/b'' None,
                    Settle 1 (Resolved True 200 (JsonOk (Some ''B''))),
                    Settle 0 (Resolved True 200 (JsonOk (Some ''A'')))] useFetch_init)
     = Some ''A''"
proof -
  let ?s = "fetch_run [Render ''/a'' (None :: string option), Render ''/b'' None]
              (useFetch_init :: (string, string) fetch_state)"
  let ?ss = "[(1::nat, Resolved True 200 (JsonOk (Some ''B''))),
              (0, Resolved True 200 (JsonOk (Some ''A'')))]"
  have s: "inflight ?s = [0, 1]"
    by (simp add: fetch_run_def useFetch_def useFetch_init_def fetchData_start_def)
  have h1: "distinct (map fst ?ss)" by simp
  have h2: "set (map fst ?ss) = set (inflight ?s)" by (auto simp: s)
  have h3: "?ss \<noteq> []" by simp
  from fetch_last_settlement_wins [OF h1 h2 h3]
  have "case try_body (snd (last ?ss)) of
            Inr r \<Rightarrow> data (fetch_run (map (\<lambda>(i, out). Settle i out) ?ss) ?s) = r
          | Inl e \<Rightarrow> error (fetch_run (map (\<lambda>(i, out). Settle i out) ?ss) ?s) = Some (catch_error e)"
    by blast
  then have "data (fetch_run (map (\<lambda>(i, out). Settle i out) ?ss) ?s) = Some ''A''"
    by (simp add: try_body_def)
  then show ?thesis using h1 by (simp add: fetch_run_def)
qed

text \<open>
  Claim C1 as stated fails: the mount starts call 0 for \<open>/a\<close>, the change of the URL to
  \<open>/b\<close> starts call 1; call 1 settles with \<open>B\<close>, then the superseded call 0 settles with
  \<open>A\<close> and overwrites \<open>data\<close>.
\<close>

theorem fetch_stale_settlement_overwrites:
  "data (fetch_run [Render ''/a'' (None :: string option), Render ''/b'' None,
                    Settle 1 (Resolved True 200 (JsonOk (Some ''B'')))]
           (useFetch_init :: (string, string) fetch_state)) = Some ''B'' \<and>
   inflight (fetch_run [Render ''/a'' (None :: string option), Render ''/b'' None,
                    Settle 1 (Resolved True 200 (JsonOk (Some ''B'')))]
           (useFetch_init :: (string, string) fetch_state)) = [0] \<and>
   data (fetch_run [Render ''/a'' (None :: string option), Render ''/b'' None,
                    Settle 1 (Resolved True 200 (JsonOk (Some ''B''))),
                    Settle 0 (Resolved True 200 (JsonOk (Some ''A'')))]
           (useFetch_init :: (string, string) fetch_state)) = Some ''A''"
  by (simp add: fetch_run_def useFetch_def useFetch_init_def fetchData_start_def
        fetchData_settle_def try_body_def)

lemma start_keeps_data: "data (fetchData_start s) = data s"
  by (simp add: fetchData_start_def)

lemma failure_keeps_data:
  assumes "try_body out = Inl e"
  shows "data (fetchData_settle i out s) = data s"
  using assms by (simp add: fetchData_settle_def)

lemma step_keeps_data:
  assumes "\<not> is_success ev"
  shows "data (fetch_step ev s) = data s"
proof (cases ev)
  case (Render url options)
  then show ?thesis by (simp add: useFetch_def start_keeps_data)
next
  case Refetch
  then show ?thesis by (simp add: refetch_def start_keeps_data)
next
  case (Settle i out)
  with assms obtain e where "try_body out = Inl e" by (cases "try_body out") simp_all
  then show ?thesis using Settle by (simp add: failure_keeps_data)
qed

lemma run_keeps_data:
  assumes "list_all (\<lambda>ev. \<not> is_success ev) evs"
  shows "data (fetch_run evs s) = data s"
  using assms unfolding fetch_run_def
  by (induction evs arbitrary: s) (simp_all add: step_keeps_data)

text \<open>
  Claim C9, as the code has it. A settlement in failure leaves \<open>data\<close> exactly as it was
  just before the settlement and writes \<open>error\<close> and \<open>loading\<close> only; starting a call
  does not change \<open>data\<close> either. So \<open>data\<close> still has the value it had before the
  failed call started whenever nothing settled successfully in between, and \<open>data\<close>
  and \<open>error\<close> can both be non-null.
\<close>

theorem fetch_failure_keeps_data:
  assumes "try_body out = Inl e"
  shows "data (fetchData_settle i out s) = data s \<and>
         (i \<in> set (inflight s) \<longrightarrow>
            error (fetchData_settle i out s) = Some (catch_error e) \<and>
            \<not> loading (fetchData_settle i out s)) \<and>
         data (fetchData_start s) = data s \<and>
         (list_all (\<lambda>ev. \<not> is_success ev) evs \<longrightarrow>
            data (fetchData_settle i out (fetch_run evs (fetchData_start s))) = data s)"
  using assms
  by (simp add: failure_keeps_data start_keeps_data run_keeps_data settle_failure)

theorem fetch_failure_keeps_data_witness:
  "try_body (Rejected (ThrownError ''Network error'') :: string outcome) =
     Inl (ThrownError ''Network error'') \<and>
   data (fetch_run [Render ''/api/test'' (None :: string option),
                    Settle 0 (Resolved True 200 (JsonOk (Some ''First''))),
                    Refetch,
                    Settle 1 (Rejected (ThrownError ''Network error''))]
            (useFetch_init :: (string, string) fetch_state))
     = Some ''First'' \<and>
   error (fetch_run [Render ''/api/test'' (None :: string option),
                    Settle 0 (Resolved True 200 (JsonOk (Some ''First''))),
                    Refetch,
                    Settle 1 (Rejected (ThrownError ''Network error''))]
            (useFetch_init :: (string, string) fetch_state))
     = Some (Error ''Network error'')"
proof -
  let ?s = "fetch_run [Render ''/api/test'' (None :: string option),
                    Settle 0 (Resolved True 200 (JsonOk (Some ''First'')))]
              (useFetch_init :: (string, string) fetch_state)"
  let ?f = "Rejected (ThrownError ''Network error'') :: string outcome"
  have s: "?s = \<lparr>data = Some ''First'', loading = False, error = None,
                 fetch_deps = Some (''/api/test'', None), inflight = [], nextOp = 1\<rparr>"
    by (simp add: fetch_run_def useFetch_def useFetch_init_def fetchData_start_def
          fetchData_settle_def try_body_def)
  have r: "fetch_run [Render ''/api/test'' (None :: string option),
                    Settle 0 (Resolved True 200 (JsonOk (Some ''First''))),
                    Refetch, Settle 1 ?f]
            (useFetch_init :: (string, string) fetch_state) =
           fetchData_settle 1 ?f (fetchData_start ?s)"
    by (simp add: fetch_run_def refetch_def)
  have h: "try_body ?f = Inl (ThrownError ''Network error'')"
    by (simp add: try_body_def)
  have m: "(1::nat) \<in> set (inflight (fetchData_start ?s))"
    by (simp only: s) (simp add: fetchData_start_def)
  from fetch_failure_keeps_data [OF h, of 1 "fetchData_start ?s" "[]"] m
  have "data (fetchData_settle 1 ?f (fetchData_start ?s)) = data (fetchData_start ?s)"
    and "error (fetchData_settle 1 ?f (fetchData_start ?s))
          = Some (catch_error (ThrownError ''Network error''))"
    by blast+
  then have "data (fetchData_settle 1 ?f (fetchData_start ?s)) = Some ''First''"
    and "error (fetchData_settle 1 ?f (fetchData_start ?s)) = Some (Error ''Network error'')"
    by (simp_all only: start_keeps_data s catch_error_def) simp_all
  then show ?thesis unfolding r using h by blast
qed

text \<open>
  Claim C9 as stated fails when calls overlap: call 0 starts with \<open>data = null\<close>, a
  refetch starts call 1, call 1 settles with \<open>B\<close>, then call 0 settles in failure;
  \<open>data\<close> is \<open>B\<close>, not the value it had before call 0 started.
\<close>

theorem fetch_data_changes_before_failure:
  "data (useFetch_init :: (string, string) fetch_state) = None \<and>
   inflight (fetch_run [Render ''/api/test'' (None :: string option), Refetch,
                    Settle 1 (Resolved True 200 (JsonOk (Some ''B'')))]
           (useFetch_init :: (string, string) fetch_state)) = [0] \<and>
   data (fetch_run [Render ''/api/test'' (None :: string option), Refetch,
                    Settle 1 (Resolved True 200 (JsonOk (Some ''B''))),
                    Settle 0 (Rejected (ThrownError ''Network error''))]
           (useFetch_init :: (string, string) fetch_state)) = Some ''B''"
  by (simp add: fetch_run_def useFetch_def refetch_def useFetch_init_def fetchData_start_def
        fetchData_settle_def try_body_def)

end
